theory Spec2Isabelle
  imports Main
begin

section \<open>Numbers of the route optimiser\<close>

text \<open>
  The distance matrices of \<^verbatim>\<open>scripts/optimize_routes.py\<close> hold Python numbers, and the
  search loops start from \<^verbatim>\<open>float("inf")\<close>. The model takes Python's unbounded integers
  together with that one infinite value: \<open>Fin k\<close> is the integer \<open>k\<close>, \<open>PInf\<close> is
  \<^verbatim>\<open>float("inf")\<close>. Comparison and addition are Python's on these values: every integer
  is below \<open>PInf\<close>, \<open>PInf < PInf\<close> is false, and a sum with \<open>PInf\<close> is \<open>PInf\<close>.
  Arithmetic is exact, as it is for the integer matrices of the script's docstring.
  Matrices that hold floats are the subject of a second model of the fallback, further
  down, in which sums of doubles are rounded and can overflow; on the matrices of this
  first model the two agree (\<open>nearest_neighbor_tsp_py_lift\<close>).
\<close>

datatype num = Fin int | PInf

instantiation num :: "{zero, plus, ord}"
begin

definition zero_num :: num where
  "zero_num = Fin 0"

fun plus_num :: "num \<Rightarrow> num \<Rightarrow> num" where
  "plus_num (Fin a) (Fin b) = Fin (a + b)"
| "plus_num (Fin a) PInf = PInf"
| "plus_num PInf y = PInf"

fun less_num :: "num \<Rightarrow> num \<Rightarrow> bool" where
  "less_num (Fin a) (Fin b) = (a < b)"
| "less_num (Fin a) PInf = True"
| "less_num PInf y = False"

fun less_eq_num :: "num \<Rightarrow> num \<Rightarrow> bool" where
  "less_eq_num (Fin a) (Fin b) = (a \<le> b)"
| "less_eq_num x PInf = True"
| "less_eq_num PInf (Fin b) = False"

instance ..

end

instance num :: linorder
proof
  fix x y z :: num
  show "(x < y) = (x \<le> y \<and> \<not> y \<le> x)"
    by (cases x; cases y) auto
  show "x \<le> x"
    by (cases x) auto
  show "x \<le> y \<Longrightarrow> y \<le> z \<Longrightarrow> x \<le> z"
    by (cases x; cases y; cases z) auto
  show "x \<le> y \<Longrightarrow> y \<le> x \<Longrightarrow> x = y"
    by (cases x; cases y) auto
  show "x \<le> y \<or> y \<le> x"
    by (cases x; cases y) auto
qed

instance num :: comm_monoid_add
proof
  fix a b c :: num
  show "a + b + c = a + (b + c)"
    by (cases a; cases b; cases c) auto
  show "a + b = b + a"
    by (cases a; cases b) auto
  show "0 + a = a"
    by (cases a) (auto simp: zero_num_def)
qed

section \<open>Data model\<close>

type_synonym matrix = "num list list"

datatype py_error = IndexError | KeyError | OverflowError

text \<open>\<^verbatim>\<open>distance_matrix[i][j]\<close> for indices that are never negative: Python raises
  IndexError when either subscript is out of range.\<close>

definition entry :: "matrix \<Rightarrow> nat \<Rightarrow> nat \<Rightarrow> py_error + num" where
  "entry distance_matrix i j =
     (if i < length distance_matrix then
        (if j < length (distance_matrix ! i) then Inr (distance_matrix ! i ! j)
         else Inl IndexError)
      else Inl IndexError)"

section \<open>The nearest-neighbour solver\<close>

text \<open>
  The innermost loop of \<^verbatim>\<open>nearest_neighbor_tsp\<close>,
  \<^verbatim>\<open>for j in range(n): if not visited[j] and distance_matrix[current][j] < best_dist: ...\<close>.
  Its state is \<open>(best_next, best_dist)\<close>; \<open>None\<close> stands for the source's \<open>-1\<close>.
  The \<^verbatim>\<open>and\<close> is short-circuit: the matrix is read only for an unvisited \<open>j\<close>.
\<close>

fun scan_step :: "matrix \<Rightarrow> bool list \<Rightarrow> nat \<Rightarrow> nat \<Rightarrow> nat option \<times> num
    \<Rightarrow> py_error + (nat option \<times> num)" where
  "scan_step distance_matrix visited current j (best_next, best_dist) =
     (if \<not> visited ! j then
        (case entry distance_matrix current j of
           Inl e \<Rightarrow> Inl e
         | Inr d \<Rightarrow> if d < best_dist then Inr (Some j, d) else Inr (best_next, best_dist))
      else Inr (best_next, best_dist))"

fun scan :: "matrix \<Rightarrow> bool list \<Rightarrow> nat \<Rightarrow> nat list \<Rightarrow> nat option \<times> num
    \<Rightarrow> py_error + (nat option \<times> num)" where
  "scan distance_matrix visited current [] s = Inr s"
| "scan distance_matrix visited current (j # js) s =
     (case scan_step distance_matrix visited current j s of
        Inl e \<Rightarrow> Inl e
      | Inr s' \<Rightarrow> scan distance_matrix visited current js s')"

text \<open>
  The middle loop, \<^verbatim>\<open>for _ in range(n - 1)\<close>, on the state
  \<open>(order, visited, total_distance)\<close>. It stops early (\<^verbatim>\<open>break\<close>) when the scan leaves
  \<open>best_next\<close> at \<open>-1\<close>.
\<close>

fun extend_path :: "matrix \<Rightarrow> nat \<Rightarrow> nat \<Rightarrow> nat list \<times> bool list \<times> num
    \<Rightarrow> py_error + (nat list \<times> bool list \<times> num)" where
  "extend_path distance_matrix n 0 s = Inr s"
| "extend_path distance_matrix n (Suc k) (order, visited, total_distance) =
     (case scan distance_matrix visited (last order) [0..<n] (None, PInf) of
        Inl e \<Rightarrow> Inl e
      | Inr (None, best_dist) \<Rightarrow> Inr (order, visited, total_distance)
      | Inr (Some best_next, best_dist) \<Rightarrow>
          extend_path distance_matrix n k
            (order @ [best_next], visited[best_next := True], total_distance + best_dist))"

text \<open>The body of the outer loop up to the comparison: the greedy path from one start.\<close>

definition greedy_from :: "matrix \<Rightarrow> nat \<Rightarrow> nat
    \<Rightarrow> py_error + (nat list \<times> bool list \<times> num)" where
  "greedy_from distance_matrix n start =
     extend_path distance_matrix n (n - 1) ([start], (replicate n False)[start := True], 0)"

text \<open>The outer loop, \<^verbatim>\<open>for start in range(n)\<close>, on \<open>(best_order, best_total)\<close>.\<close>

fun starts :: "matrix \<Rightarrow> nat \<Rightarrow> nat list \<Rightarrow> nat list option \<times> num
    \<Rightarrow> py_error + (nat list option \<times> num)" where
  "starts distance_matrix n [] s = Inr s"
| "starts distance_matrix n (start # rest) (best_order, best_total) =
     (case greedy_from distance_matrix n start of
        Inl e \<Rightarrow> Inl e
      | Inr (order, visited, total_distance) \<Rightarrow>
          if total_distance < best_total
          then starts distance_matrix n rest (Some order, total_distance)
          else starts distance_matrix n rest (best_order, best_total))"

definition nearest_neighbor_tsp :: "matrix \<Rightarrow> py_error + (nat list option \<times> num)" where
  "nearest_neighbor_tsp distance_matrix =
     (let n = length distance_matrix in
      if n \<le> 1 then Inr (Some [0..<n], 0)
      else starts distance_matrix n [0..<n] (None, PInf))"

section \<open>The OR-Tools path\<close>

text \<open>
  OR-Tools is not part of the repository. The model takes it as a parameter: an
  \<open>engine\<close> receives the augmented matrix and the depot node and answers \<open>None\<close> when
  \<^verbatim>\<open>SolveWithParameters\<close> finds no solution, and otherwise \<open>Some full_tour\<close>, the node
  sequence that the extraction loop of \<^verbatim>\<open>solve_tsp_ortools\<close> collects from
  \<^verbatim>\<open>routing.Start(0)\<close> until \<^verbatim>\<open>routing.IsEnd\<close>.
\<close>

type_synonym engine = "matrix \<Rightarrow> nat \<Rightarrow> nat list option"

text \<open>\<^verbatim>\<open>for i in range(len(order) - 1): total_distance += distance_matrix[order[i]][order[i + 1]]\<close>\<close>

fun tour_cost :: "matrix \<Rightarrow> nat list \<Rightarrow> nat list \<Rightarrow> num \<Rightarrow> py_error + num" where
  "tour_cost distance_matrix order [] total_distance = Inr total_distance"
| "tour_cost distance_matrix order (i # rest) total_distance =
     (case entry distance_matrix (order ! i) (order ! (i + 1)) of
        Inl e \<Rightarrow> Inl e
      | Inr d \<Rightarrow> tour_cost distance_matrix order rest (total_distance + d))"

definition solve_tsp_ortools :: "engine \<Rightarrow> matrix \<Rightarrow> py_error + (nat list option \<times> num)" where
  "solve_tsp_ortools engine distance_matrix =
     (let n = length distance_matrix in
      if n \<le> 1 then Inr (Some [0..<n], 0)
      else if n = 2 then
        (case entry distance_matrix 0 1 of
           Inl e \<Rightarrow> Inl e
         | Inr d \<Rightarrow> Inr (Some [0, 1], d))
      else
        let aug_n = n + 1;
            aug_matrix = map (\<lambda>i. distance_matrix ! i @ [0]) [0..<n] @ [replicate aug_n 0]
        in case engine aug_matrix n of
             Some full_tour \<Rightarrow>
               (let order = filter (\<lambda>node. node \<noteq> n) full_tour in
                case tour_cost distance_matrix order [0..<length order - 1] 0 of
                  Inl e \<Rightarrow> Inl e
                | Inr total_distance \<Rightarrow> Inr (Some order, total_distance))
           | None \<Rightarrow> nearest_neighbor_tsp distance_matrix)"

section \<open>The batch driver\<close>

text \<open>
  The request and its clusters are JSON objects; a field is \<open>None\<close> when the key is
  absent. \<^verbatim>\<open>cluster["k"]\<close> raises KeyError on an absent key, while
  \<^verbatim>\<open>data.get("clusters", [])\<close> takes the empty list. The \<open>clusterId\<close> of a route is the
  field \<open>route_clusterId\<close>, since two records cannot share a field name.
\<close>

record cluster =
  clusterId :: "int option"
  distanceMatrix :: "matrix option"
  voterIds :: "string list option"

record request =
  clusters :: "cluster list option"

record route =
  route_clusterId :: int
  orderedIndices :: "nat list option"
  totalDistance :: num

text \<open>\<^verbatim>\<open>data.get("clusters", [])\<close>\<close>

definition get_clusters :: "request \<Rightarrow> cluster list" where
  "get_clusters data = (case clusters data of None \<Rightarrow> [] | Some cs \<Rightarrow> cs)"

definition subscript :: "'a option \<Rightarrow> py_error + 'a" where
  "subscript field = (case field of None \<Rightarrow> Inl KeyError | Some v \<Rightarrow> Inr v)"

text \<open>\<^verbatim>\<open>solve_fn = solve_tsp_ortools if HAS_ORTOOLS else nearest_neighbor_tsp\<close>, which is
  also the choice the loop body makes for each cluster.\<close>

definition solve_fn :: "bool \<Rightarrow> engine \<Rightarrow> matrix \<Rightarrow> py_error + (nat list option \<times> num)" where
  "solve_fn has_ortools engine matrix =
     (if has_ortools then solve_tsp_ortools engine matrix else nearest_neighbor_tsp matrix)"

text \<open>The loop \<^verbatim>\<open>for cluster in clusters\<close> of \<^verbatim>\<open>main\<close>, on the list \<open>routes\<close>.\<close>

fun solve_clusters :: "bool \<Rightarrow> engine \<Rightarrow> cluster list \<Rightarrow> route list
    \<Rightarrow> py_error + route list" where
  "solve_clusters has_ortools engine [] routes = Inr routes"
| "solve_clusters has_ortools engine (cluster # rest) routes =
     (case subscript (distanceMatrix cluster) of
        Inl e \<Rightarrow> Inl e
      | Inr matrix \<Rightarrow>
          (case solve_fn has_ortools engine matrix of
             Inl e \<Rightarrow> Inl e
           | Inr (order, total_dist) \<Rightarrow>
               (case subscript (clusterId cluster) of
                  Inl e \<Rightarrow> Inl e
                | Inr cid \<Rightarrow>
                    solve_clusters has_ortools engine rest
                      (routes @ [\<lparr>route_clusterId = cid, orderedIndices = order,
                                  totalDistance = total_dist\<rparr>]))))"

record response =
  routes :: "route list"
  solver :: string

text \<open>\<^verbatim>\<open>main\<close>: \<open>Inr\<close> is the response printed to stdout, \<open>Inl\<close> the uncaught exception
  with which the process ends (traceback, exit status 1).\<close>

definition main :: "bool \<Rightarrow> engine \<Rightarrow> request \<Rightarrow> py_error + response" where
  "main has_ortools engine data =
     (let cs = get_clusters data in
      case solve_clusters has_ortools engine cs [] of
        Inl e \<Rightarrow> Inl e
      | Inr rs \<Rightarrow>
          Inr \<lparr>routes = rs,
               solver = (if has_ortools then ''ortools'' else ''nearest_neighbor'')\<rparr>)"

section \<open>The fallback on Python's numbers in full\<close>

text \<open>
  \<^verbatim>\<open>json.loads\<close> reads an integer literal as an \<^verbatim>\<open>int\<close> and every other number as a
  \<^verbatim>\<open>float\<close>, an IEEE double. \<open>Finite m e\<close> is the double of value \<open>m * 2 ^ e\<close>; the sign
  of zero is not kept, since neither \<^verbatim>\<open><\<close> nor a non-zero sum depends on it.
\<close>

datatype double = Finite int int | PosInf | NegInf | NaN

datatype pynum = PyInt int | PyFloat double

text \<open>\<open>m1 * 2 ^ e1 < m2 * 2 ^ e2\<close>, computed on integers.\<close>

definition dyadic_less :: "int \<Rightarrow> int \<Rightarrow> int \<Rightarrow> int \<Rightarrow> bool" where
  "dyadic_less m1 e1 m2 e2 =
     (let e = min e1 e2 in m1 * 2 ^ nat (e1 - e) < m2 * 2 ^ nat (e2 - e))"

text \<open>\<^verbatim>\<open><\<close> on doubles: false whenever an operand is NaN.\<close>

fun double_less :: "double \<Rightarrow> double \<Rightarrow> bool" where
  "double_less NaN y = False"
| "double_less x NaN = False"
| "double_less PosInf y = False"
| "double_less x NegInf = False"
| "double_less NegInf y = True"
| "double_less (Finite m e) PosInf = True"
| "double_less (Finite m1 e1) (Finite m2 e2) = dyadic_less m1 e1 m2 e2"

text \<open>The number of binary digits of a positive integer.\<close>

function bit_length :: "int \<Rightarrow> int" where
  "bit_length a = (if a \<le> 0 then 0 else 1 + bit_length (a div 2))"
  by pat_completeness auto
termination
  by (relation "measure nat") auto

text \<open>
  The double nearest to \<open>m * 2 ^ e\<close>, ties to the even mantissa: 53 binary digits are
  kept, or those above \<open>2 ^ -1074\<close> for a subnormal result, and a result of magnitude
  \<open>2 ^ 1024\<close> or more is an infinity.
\<close>

definition round_double :: "int \<Rightarrow> int \<Rightarrow> double" where
  "round_double m e =
     (if m = 0 then Finite 0 0
      else
        let a = \<bar>m\<bar>;
            lsb = max (bit_length a + e - 53) (- 1074);
            q = (if lsb \<le> e then a * 2 ^ nat (e - lsb)
                 else
                   let d = 2 ^ nat (lsb - e);
                       q0 = a div d;
                       r = a mod d
                   in if d < 2 * r \<or> (d = 2 * r \<and> odd q0) then q0 + 1 else q0)
        in if q = 0 then Finite 0 0
           else if 1024 < bit_length q + lsb then (if m < 0 then NegInf else PosInf)
           else Finite (if m < 0 then - q else q) lsb)"

text \<open>\<^verbatim>\<open>+\<close> on doubles: the exact sum of two finite values, rounded.\<close>

fun double_add :: "double \<Rightarrow> double \<Rightarrow> double" where
  "double_add NaN y = NaN"
| "double_add x NaN = NaN"
| "double_add PosInf NegInf = NaN"
| "double_add NegInf PosInf = NaN"
| "double_add PosInf y = PosInf"
| "double_add x PosInf = PosInf"
| "double_add NegInf y = NegInf"
| "double_add x NegInf = NegInf"
| "double_add (Finite m1 e1) (Finite m2 e2) =
     (let e = min e1 e2
      in round_double (m1 * 2 ^ nat (e1 - e) + m2 * 2 ^ nat (e2 - e)) e)"

text \<open>The conversion of an \<^verbatim>\<open>int\<close> operand that \<^verbatim>\<open>+\<close> makes when the other operand is
  a \<^verbatim>\<open>float\<close>: Python raises OverflowError for an integer too large for a double.\<close>

definition float_of_int :: "int \<Rightarrow> py_error + double" where
  "float_of_int k =
     (case round_double k 0 of
        PosInf \<Rightarrow> Inl OverflowError
      | NegInf \<Rightarrow> Inl OverflowError
      | d \<Rightarrow> Inr d)"

text \<open>Python's \<^verbatim>\<open>+\<close> and \<^verbatim>\<open><\<close> on these numbers. Integers are added exactly, and an
  integer is compared with a double by value, without conversion.\<close>

fun py_add :: "pynum \<Rightarrow> pynum \<Rightarrow> py_error + pynum" where
  "py_add (PyInt a) (PyInt b) = Inr (PyInt (a + b))"
| "py_add (PyInt a) (PyFloat y) =
     (case float_of_int a of Inl e \<Rightarrow> Inl e | Inr x \<Rightarrow> Inr (PyFloat (double_add x y)))"
| "py_add (PyFloat x) (PyInt b) =
     (case float_of_int b of Inl e \<Rightarrow> Inl e | Inr y \<Rightarrow> Inr (PyFloat (double_add x y)))"
| "py_add (PyFloat x) (PyFloat y) = Inr (PyFloat (double_add x y))"

fun py_less :: "pynum \<Rightarrow> pynum \<Rightarrow> bool" where
  "py_less (PyInt a) (PyInt b) = (a < b)"
| "py_less (PyInt a) (PyFloat y) = double_less (Finite a 0) y"
| "py_less (PyFloat x) (PyInt b) = double_less x (Finite b 0)"
| "py_less (PyFloat x) (PyFloat y) = double_less x y"

text \<open>
  \<^verbatim>\<open>nearest_neighbor_tsp\<close> once more, loop by loop as above, on matrices of these
  numbers. The one difference is that \<^verbatim>\<open>total_distance += best_dist\<close> can now raise.
\<close>

type_synonym py_matrix = "pynum list list"

definition entry_py :: "py_matrix \<Rightarrow> nat \<Rightarrow> nat \<Rightarrow> py_error + pynum" where
  "entry_py distance_matrix i j =
     (if i < length distance_matrix then
        (if j < length (distance_matrix ! i) then Inr (distance_matrix ! i ! j)
         else Inl IndexError)
      else Inl IndexError)"

fun scan_step_py :: "py_matrix \<Rightarrow> bool list \<Rightarrow> nat \<Rightarrow> nat \<Rightarrow> nat option \<times> pynum
    \<Rightarrow> py_error + (nat option \<times> pynum)" where
  "scan_step_py distance_matrix visited current j (best_next, best_dist) =
     (if \<not> visited ! j then
        (case entry_py distance_matrix current j of
           Inl e \<Rightarrow> Inl e
         | Inr d \<Rightarrow> if py_less d best_dist then Inr (Some j, d)
                    else Inr (best_next, best_dist))
      else Inr (best_next, best_dist))"

fun scan_py :: "py_matrix \<Rightarrow> bool list \<Rightarrow> nat \<Rightarrow> nat list \<Rightarrow> nat option \<times> pynum
    \<Rightarrow> py_error + (nat option \<times> pynum)" where
  "scan_py distance_matrix visited current [] s = Inr s"
| "scan_py distance_matrix visited current (j # js) s =
     (case scan_step_py distance_matrix visited current j s of
        Inl e \<Rightarrow> Inl e
      | Inr s' \<Rightarrow> scan_py distance_matrix visited current js s')"

fun extend_path_py :: "py_matrix \<Rightarrow> nat \<Rightarrow> nat \<Rightarrow> nat list \<times> bool list \<times> pynum
    \<Rightarrow> py_error + (nat list \<times> bool list \<times> pynum)" where
  "extend_path_py distance_matrix n 0 s = Inr s"
| "extend_path_py distance_matrix n (Suc k) (order, visited, total_distance) =
     (case scan_py distance_matrix visited (last order) [0..<n] (None, PyFloat PosInf) of
        Inl e \<Rightarrow> Inl e
      | Inr (None, best_dist) \<Rightarrow> Inr (order, visited, total_distance)
      | Inr (Some best_next, best_dist) \<Rightarrow>
          (case py_add total_distance best_dist of
             Inl e \<Rightarrow> Inl e
           | Inr total_distance' \<Rightarrow>
               extend_path_py distance_matrix n k
                 (order @ [best_next], visited[best_next := True], total_distance')))"

definition greedy_from_py :: "py_matrix \<Rightarrow> nat \<Rightarrow> nat
    \<Rightarrow> py_error + (nat list \<times> bool list \<times> pynum)" where
  "greedy_from_py distance_matrix n start =
     extend_path_py distance_matrix n (n - 1)
       ([start], (replicate n False)[start := True], PyInt 0)"

fun starts_py :: "py_matrix \<Rightarrow> nat \<Rightarrow> nat list \<Rightarrow> nat list option \<times> pynum
    \<Rightarrow> py_error + (nat list option \<times> pynum)" where
  "starts_py distance_matrix n [] s = Inr s"
| "starts_py distance_matrix n (start # rest) (best_order, best_total) =
     (case greedy_from_py distance_matrix n start of
        Inl e \<Rightarrow> Inl e
      | Inr (order, visited, total_distance) \<Rightarrow>
          if py_less total_distance best_total
          then starts_py distance_matrix n rest (Some order, total_distance)
          else starts_py distance_matrix n rest (best_order, best_total))"

definition nearest_neighbor_tsp_py :: "py_matrix \<Rightarrow> py_error + (nat list option \<times> pynum)" where
  "nearest_neighbor_tsp_py distance_matrix =
     (let n = length distance_matrix in
      if n \<le> 1 then Inr (Some [0..<n], PyInt 0)
      else starts_py distance_matrix n [0..<n] (None, PyFloat PosInf))"

text \<open>The double that the JSON literal \<^verbatim>\<open>1e308\<close> denotes, and a three-node matrix that
  holds it off the diagonal.\<close>

definition float_1e308 :: double where
  "float_1e308 = Finite 5010420900022432 971"

definition overflow3 :: py_matrix where
  "overflow3 =
     [[PyInt 0, PyFloat float_1e308, PyFloat float_1e308],
      [PyFloat float_1e308, PyInt 0, PyFloat float_1e308],
      [PyFloat float_1e308, PyFloat float_1e308, PyInt 0]]"

text \<open>A matrix that holds the float \<^verbatim>\<open>1.5\<close> next to the integer \<open>2 ^ 1024\<close>, which is too
  large for a double.\<close>

definition mixed3 :: py_matrix where
  "mixed3 =
     [[PyInt 0, PyFloat (Finite (3 * 2 ^ 51) (- 52)), PyInt (2 ^ 1024)],
      [PyFloat (Finite (3 * 2 ^ 51) (- 52)), PyInt 0, PyInt (2 ^ 1024)],
      [PyInt (2 ^ 1024), PyInt (2 ^ 1024), PyInt 0]]"

text \<open>The numbers of the first model among Python's numbers.\<close>

fun lift :: "num \<Rightarrow> pynum" where
  "lift (Fin k) = PyInt k"
| "lift PInf = PyFloat PosInf"

section \<open>Notions of the specification\<close>

text \<open>The permutation of \<open>0..n-1\<close> that the specification asks of \<open>orderedIndices\<close>:
  length \<open>n\<close>, no duplicates, every element in range.\<close>

definition permutation_of :: "nat \<Rightarrow> nat list \<Rightarrow> bool" where
  "permutation_of n order = (length order = n \<and> distinct order \<and> (\<forall>i\<in>set order. i < n))"

text \<open>The specification's \<open>totalDistance\<close>: the sum of
  \<open>distanceMatrix[orderedIndices[k]][orderedIndices[k+1]]\<close> for \<open>k = 0..n-2\<close>.\<close>

definition route_total :: "matrix \<Rightarrow> nat list \<Rightarrow> num" where
  "route_total m order = (\<Sum>k\<leftarrow>[0..<length m - 1]. m ! (order ! k) ! (order ! (k + 1)))"

text \<open>The same sum over the edges that a list of nodes has, whatever its length.\<close>

definition recomputed :: "matrix \<Rightarrow> nat list \<Rightarrow> num" where
  "recomputed m order = (\<Sum>k\<leftarrow>[0..<length order - 1]. m ! (order ! k) ! (order ! (k + 1)))"

text \<open>
  The greedy rule in the specification's words. After the nodes \<open>pre\<close>, the step to \<open>b\<close>
  is a nearest-neighbour step when \<open>b\<close> is an unvisited node at a finite distance from the
  last node of \<open>pre\<close>, no unvisited node is nearer, and every unvisited node of lower
  index is strictly farther. A path is greedy when each of its steps is one.
\<close>

definition nearest_step :: "matrix \<Rightarrow> nat \<Rightarrow> nat list \<Rightarrow> nat \<Rightarrow> bool" where
  "nearest_step m n pre b =
     (b < n \<and> b \<notin> set pre \<and> m ! last pre ! b \<noteq> PInf \<and>
      (\<forall>j<n. j \<notin> set pre \<longrightarrow> m ! last pre ! b \<le> m ! last pre ! j) \<and>
      (\<forall>j<b. j \<notin> set pre \<longrightarrow> m ! last pre ! b < m ! last pre ! j))"

definition greedy_path :: "matrix \<Rightarrow> nat \<Rightarrow> nat list \<Rightarrow> bool" where
  "greedy_path m n order =
     (\<forall>k<length order - 1. nearest_step m n (take (Suc k) order) (order ! Suc k))"

section \<open>Properties of the inputs\<close>

text \<open>A matrix is square when every row is as long as the list of rows; its entries are
  finite when none of them is \<open>PInf\<close>.\<close>

definition square :: "matrix \<Rightarrow> bool" where
  "square m = (\<forall>row\<in>set m. length row = length m)"

definition finite_entries :: "matrix \<Rightarrow> bool" where
  "finite_entries m = (\<forall>row\<in>set m. \<forall>x\<in>set row. x \<noteq> PInf)"

text \<open>Two matrices agree off the diagonal.\<close>

definition off_diagonal_equal :: "matrix \<Rightarrow> matrix \<Rightarrow> bool" where
  "off_diagonal_equal m m' =
     (\<forall>i<length m. \<forall>j<length m. i \<noteq> j \<longrightarrow> m ! i ! j = m' ! i ! j)"



text \<open>
  What the model assumes of OR-Tools when it reports a solution: the tour of a routing
  model over the nodes of the matrix it was given, with one vehicle and no optional
  nodes, visits every node exactly once.
\<close>

definition engine_ok :: "engine \<Rightarrow> bool" where
  "engine_ok engine =
     (\<forall>aug_matrix depot full_tour. engine aug_matrix depot = Some full_tour \<longrightarrow>
        permutation_of (length aug_matrix) full_tour)"

section \<open>Loop invariants\<close>

text \<open>
  The scan, after the columns below \<open>k\<close>: either nothing was found and every unvisited
  column so far holds \<open>PInf\<close>, or \<open>best_next\<close> is the unvisited column of lowest index
  among those with the least entry, and \<open>best_dist\<close> is that entry.
\<close>

definition scan_inv :: "matrix \<Rightarrow> bool list \<Rightarrow> nat \<Rightarrow> nat \<Rightarrow> nat option \<times> num \<Rightarrow> bool" where
  "scan_inv m v c k s =
     (case s of
        (None, bd) \<Rightarrow> bd = PInf \<and> (\<forall>j<k. \<not> v ! j \<longrightarrow> m ! c ! j = PInf)
      | (Some b, bd) \<Rightarrow> b < k \<and> \<not> v ! b \<and> m ! c ! b = bd \<and> bd \<noteq> PInf \<and>
           (\<forall>j<k. \<not> v ! j \<longrightarrow> bd \<le> m ! c ! j) \<and>
           (\<forall>j<b. \<not> v ! j \<longrightarrow> bd < m ! c ! j))"

text \<open>
  The middle loop: \<open>order\<close> begins at the start, lists exactly the visited nodes without
  repetition and is a greedy path, and \<open>total_distance\<close> is its finite cost.
\<close>

definition nn_inv :: "matrix \<Rightarrow> nat \<Rightarrow> nat \<Rightarrow> nat list \<times> bool list \<times> num \<Rightarrow> bool" where
  "nn_inv m n start s =
     (case s of (order, visited, tot) \<Rightarrow>
        order \<noteq> [] \<and> hd order = start \<and> length visited = n \<and> distinct order \<and>
        set order = {j. j < n \<and> visited ! j} \<and>
        tot = recomputed m order \<and> tot \<noteq> PInf \<and> greedy_path m n order)"

text \<open>
  The outer loop, after the starts below \<open>k\<close>: \<open>best_order\<close> is the path of one of them,
  its total is at most the total of each, and strictly below the total of each earlier
  start.
\<close>

definition starts_inv :: "matrix \<Rightarrow> nat \<Rightarrow> nat \<Rightarrow> nat list option \<times> num \<Rightarrow> bool" where
  "starts_inv m n k s =
     (case s of
        (None, bt) \<Rightarrow> k = 0 \<and> bt = PInf
      | (Some order, bt) \<Rightarrow>
          hd order < k \<and> (\<exists>v. greedy_from m n (hd order) = Inr (order, v, bt)) \<and>
          (\<forall>s<k. \<forall>ord v t. greedy_from m n s = Inr (ord, v, t) \<longrightarrow>
              bt \<le> t \<and> (s < hd order \<longrightarrow> bt < t)))"

section \<open>Sample inputs\<close>

text \<open>The four-node matrix of the specification's scenario, the same matrix with other
  values on its diagonal, and an engine that answers every request with the nodes in
  descending order (the depot first).\<close>

definition scenario4 :: matrix where
  "scenario4 = [[Fin 0, Fin 10, Fin 15, Fin 20], [Fin 10, Fin 0, Fin 35, Fin 25],
                [Fin 15, Fin 35, Fin 0, Fin 30], [Fin 20, Fin 25, Fin 30, Fin 0]]"

definition scenario4_diagonal :: matrix where
  "scenario4_diagonal =
     [[Fin 99, Fin 10, Fin 15, Fin 20], [Fin 10, Fin (- 7), Fin 35, Fin 25],
      [Fin 15, Fin 35, PInf, Fin 30], [Fin 20, Fin 25, Fin 30, Fin 1]]"

definition reversing_engine :: engine where
  "reversing_engine aug_matrix depot = Some (rev [0..<length aug_matrix])"


text \<open>A two-node matrix whose two directions differ, and a request of two clusters.\<close>

definition asym2 :: matrix where
  "asym2 = [[Fin 0, Fin 7], [Fin 3, Fin 0]]"

definition sample_request :: request where
  "sample_request =
     \<lparr>clusters = Some
        [\<lparr>clusterId = Some 41, distanceMatrix = Some scenario4, voterIds = None\<rparr>,
         \<lparr>clusterId = Some 17, distanceMatrix = Some asym2,
          voterIds = Some [''voter-1'', ''voter-2'']\<rparr>]\<rparr>"






section \<open>Auxiliary lemmas\<close>

subsection \<open>The loops of the nearest-neighbour solver\<close>

lemma scan_append:
  "scan m v c (xs @ ys) s =
     (case scan m v c xs s of Inl e \<Rightarrow> Inl e | Inr s' \<Rightarrow> scan m v c ys s')"
  by (induction xs arbitrary: s) (auto split: sum.splits)

lemma less_PInf_iff: "(x < PInf) = (x \<noteq> PInf)"
  by (cases x) auto

lemma plus_ne_PInf: "a \<noteq> PInf \<Longrightarrow> b \<noteq> PInf \<Longrightarrow> a + b \<noteq> PInf"
  by (cases a; cases b) auto

lemma scan_upt:
  assumes "c < length m" and "\<forall>j<k. \<not> v ! j \<longrightarrow> j < length (m ! c)"
  shows "\<exists>s. scan m v c [0..<k] (None, PInf) = Inr s \<and> scan_inv m v c k s"
  using assms
proof (induction k)
  case 0
  then show ?case by (simp add: scan_inv_def)
next
  case (Suc k)
  then obtain s where s: "scan m v c [0..<k] (None, PInf) = Inr s" "scan_inv m v c k s"
    by auto
  obtain bn bd where bn: "s = (bn, bd)" by (cases s)
  show ?case
  proof (cases "v ! k")
    case True
    then show ?thesis using s bn
      by (auto simp: scan_append scan_inv_def less_Suc_eq split: option.splits)
  next
    case False
    with Suc.prems have "k < length (m ! c)" by simp
    then have e: "entry m c k = Inr (m ! c ! k)"
      using Suc.prems(1) by (simp add: entry_def)
    show ?thesis using s bn False e
      by (auto simp: scan_append scan_inv_def less_Suc_eq less_PInf_iff split: option.splits)
  qed
qed

lemma recomputed_snoc:
  assumes "order \<noteq> []"
  shows "recomputed m (order @ [b]) = recomputed m order + m ! last order ! b"
proof -
  obtain l where l: "length order = Suc l" using assms by (cases order) auto
  have a: "(\<Sum>k\<leftarrow>[0..<l]. m ! ((order @ [b]) ! k) ! ((order @ [b]) ! Suc k))
         = (\<Sum>k\<leftarrow>[0..<l]. m ! (order ! k) ! (order ! Suc k))"
    by (intro arg_cong[where f=sum_list] map_cong) (auto simp: nth_append l)
  have b: "(order @ [b]) ! l = last order" "(order @ [b]) ! Suc l = b"
    using l assms by (auto simp: nth_append last_conv_nth)
  show ?thesis
    using a b l by (simp add: recomputed_def)
qed

lemma greedy_path_snoc:
  assumes "greedy_path m n order" "order \<noteq> []" "nearest_step m n order b"
  shows "greedy_path m n (order @ [b])"
  unfolding greedy_path_def
proof (intro allI impI)
  fix k assume k: "k < length (order @ [b]) - 1"
  show "nearest_step m n (take (Suc k) (order @ [b])) ((order @ [b]) ! Suc k)"
  proof (cases "k < length order - 1")
    case True
    then have "Suc k < length order" by simp
    with True show ?thesis using assms(1) by (simp add: greedy_path_def nth_append)
  next
    case False
    with k have "Suc k = length order" using assms(2) by (cases order) auto
    then show ?thesis using assms(3) by simp
  qed
qed

lemma extend_inv:
  assumes "square m" "length m = n" "nn_inv m n start s"
  shows "\<exists>s'. extend_path m n k s = Inr s' \<and> nn_inv m n start s'"
  using assms(3)
proof (induction k arbitrary: s)
  case 0
  then show ?case by simp
next
  case (Suc k)
  obtain order v tot where s: "s = (order, v, tot)" by (cases s)
  from Suc.prems s have inv: "order \<noteq> []" "hd order = start" "length v = n" "distinct order"
    "set order = {j. j < n \<and> v ! j}" "tot = recomputed m order" "tot \<noteq> PInf"
    "greedy_path m n order"
    by (auto simp: nn_inv_def)
  let ?c = "last order"
  have "?c \<in> set order" using inv(1) by simp
  then have c: "?c < n" "v ! ?c" using inv(5) by auto
  have row: "length (m ! ?c) = n"
    using assms(1,2) c(1) by (simp add: square_def)
  obtain bn bd where sc: "scan m v ?c [0..<n] (None, PInf) = Inr (bn, bd)"
    "scan_inv m v ?c n (bn, bd)"
    using scan_upt[of ?c m n v] c(1) assms(2) row by auto
  show ?case
  proof (cases bn)
    case None
    then show ?thesis using sc s Suc.prems by simp
  next
    case (Some b)
    with sc(2) have b: "b < n" "\<not> v ! b" "m ! ?c ! b = bd" "bd \<noteq> PInf"
      "\<forall>j<n. \<not> v ! j \<longrightarrow> bd \<le> m ! ?c ! j" "\<forall>j<b. \<not> v ! j \<longrightarrow> bd < m ! ?c ! j"
      by (auto simp: scan_inv_def)
    have notin: "b \<notin> set order" using b(2) inv(5) by auto
    have unv: "\<And>j. j < n \<Longrightarrow> j \<notin> set order \<Longrightarrow> \<not> v ! j" using inv(5) by auto
    have ns: "nearest_step m n order b"
      unfolding nearest_step_def using b notin unv by auto
    have setv: "{j. j < n \<and> v[b := True] ! j} = insert b {j. j < n \<and> v ! j}"
      using b(1) inv(3) by (auto simp: nth_list_update)
    have "nn_inv m n start (order @ [b], v[b := True], tot + bd)"
      unfolding nn_inv_def
      using inv notin setv b(3,4) greedy_path_snoc[OF inv(8) inv(1) ns]
      by (simp add: recomputed_snoc plus_ne_PInf)
    from Suc.IH[OF this] show ?thesis using sc(1) s Some by simp
  qed
qed

lemma init_inv:
  assumes "start < n"
  shows "nn_inv m n start ([start], (replicate n False)[start := True], 0)"
proof -
  have "{j. j < n \<and> (replicate n False)[start := True] ! j} = {start}"
    using assms by (auto simp: nth_list_update)
  then show ?thesis
    by (simp add: nn_inv_def recomputed_def greedy_path_def zero_num_def)
qed

lemma greedy_from_inv:
  assumes "square m" "length m = n" "start < n"
  shows "\<exists>s'. greedy_from m n start = Inr s' \<and> nn_inv m n start s'"
  unfolding greedy_from_def using extend_inv[OF assms(1,2) init_inv[OF assms(3)]] .

lemma entry_finite:
  assumes "finite_entries m" "square m" "i < length m" "j < length m"
  shows "m ! i ! j \<noteq> PInf"
proof -
  have "m ! i \<in> set m" using assms(3) by simp
  moreover from this have "length (m ! i) = length m" using assms(2) by (simp add: square_def)
  ultimately show ?thesis using assms(1,4) by (auto simp: finite_entries_def)
qed

lemma unvisited_exists:
  assumes "distinct order" "set order = {j. j < n \<and> v ! j}" "length order < n"
  shows "\<exists>j<n. \<not> v ! j"
proof (rule ccontr)
  assume "\<not> (\<exists>j<n. \<not> v ! j)"
  then have "set order = {..<n}" using assms(2) by auto
  then have "card (set order) = n" by simp
  then show False using assms(1,3) by (simp add: distinct_card)
qed

lemma extend_length:
  assumes "square m" "length m = n" "finite_entries m" "nn_inv m n start s"
    "length (fst s) + k \<le> n"
  shows "\<exists>s'. extend_path m n k s = Inr s' \<and> nn_inv m n start s' \<and>
           length (fst s') = length (fst s) + k"
  using assms(4,5)
proof (induction k arbitrary: s)
  case 0
  then show ?case by simp
next
  case (Suc k)
  obtain order v tot where s: "s = (order, v, tot)" by (cases s)
  from Suc.prems s have inv: "order \<noteq> []" "distinct order"
    "set order = {j. j < n \<and> v ! j}" and len: "length order < n"
    by (auto simp: nn_inv_def)
  let ?c = "last order"
  have "?c \<in> set order" using inv(1) by simp
  then have c: "?c < n" using inv(3) by auto
  have row: "length (m ! ?c) = n"
    using assms(1,2) c by (simp add: square_def)
  obtain bn bd where sc: "scan m v ?c [0..<n] (None, PInf) = Inr (bn, bd)"
    "scan_inv m v ?c n (bn, bd)"
    using scan_upt[of ?c m n v] c assms(2) row by auto
  obtain j where j: "j < n" "\<not> v ! j"
    using unvisited_exists[OF inv(2,3) len] by auto
  have "m ! ?c ! j \<noteq> PInf"
    using entry_finite[OF assms(3,1)] c j(1) assms(2) by simp
  then obtain b where b: "bn = Some b"
    using sc(2) j by (cases bn) (auto simp: scan_inv_def)
  have step: "extend_path m n (Suc k) s = extend_path m n k (order @ [b], v[b := True], tot + bd)"
    using s sc(1) b by simp
  have "\<exists>s'. extend_path m n (Suc 0) s = Inr s' \<and> nn_inv m n start s'"
    using extend_inv[OF assms(1,2) Suc.prems(1)] by blast
  then have inv': "nn_inv m n start (order @ [b], v[b := True], tot + bd)"
    using s sc(1) b by simp
  have "length (fst (order @ [b], v[b := True], tot + bd)) + k \<le> n"
    using Suc.prems(2) s by simp
  from Suc.IH[OF inv' this] show ?case using step s by simp
qed

lemma greedy_from_full:
  assumes "square m" "length m = n" "finite_entries m" "start < n"
  shows "\<exists>s'. greedy_from m n start = Inr s' \<and> nn_inv m n start s' \<and> length (fst s') = n"
proof -
  have "length (fst ([start], (replicate n False)[start := True], 0::num)) + (n - 1) \<le> n"
    using assms(4) by simp
  from extend_length[OF assms(1,2,3) init_inv[OF assms(4)] this]
  show ?thesis using assms(4) by (simp add: greedy_from_def)
qed

lemma inv_perm:
  assumes "nn_inv m n start (order, v, tot)" "length order = n"
  shows "permutation_of n order"
  using assms by (auto simp: nn_inv_def permutation_of_def)

lemma starts_append:
  "starts m n (xs @ ys) s =
     (case starts m n xs s of Inl e \<Rightarrow> Inl e | Inr s' \<Rightarrow> starts m n ys s')"
proof (induction xs arbitrary: s)
  case Nil
  then show ?case by simp
next
  case (Cons x xs)
  obtain bo bt where "s = (bo, bt)" by (cases s)
  then show ?case using Cons.IH by (simp split: sum.splits prod.splits)
qed

lemma starts_upt:
  assumes "square m" "length m = n" "k \<le> n"
  shows "\<exists>s. starts m n [0..<k] (None, PInf) = Inr s \<and> starts_inv m n k s"
  using assms(3)
proof (induction k)
  case 0
  then show ?case by (simp add: starts_inv_def)
next
  case (Suc k)
  then obtain bo bt where s: "starts m n [0..<k] (None, PInf) = Inr (bo, bt)"
    "starts_inv m n k (bo, bt)"
    by auto
  from Suc.prems have "k < n" by simp
  from greedy_from_inv[OF assms(1,2) this]
  obtain ord v t where g: "greedy_from m n k = Inr (ord, v, t)" "nn_inv m n k (ord, v, t)"
    by (metis prod_cases3)
  then have hd: "hd ord = k" and fin: "t < PInf"
    by (auto simp: nn_inv_def less_PInf_iff)
  show ?case
  proof (cases "t < bt")
    case True
    have below: "t < t'" if "s' < k" "greedy_from m n s' = Inr (ord', v', t')"
      for s' ord' v' t'
    proof -
      have "bt \<le> t'"
        using s(2) that by (cases bo) (auto simp: starts_inv_def)
      with True show ?thesis by simp
    qed
    have "starts_inv m n (Suc k) (Some ord, t)"
      using g(1) hd below less_imp_le[OF below]
      by (auto simp: starts_inv_def less_Suc_eq)
    then show ?thesis using s(1) g(1) True by (simp add: starts_append)
  next
    case False
    then obtain order where bo: "bo = Some order"
      using s(2) fin by (cases bo) (auto simp: starts_inv_def)
    have "starts_inv m n (Suc k) (bo, bt)"
      unfolding starts_inv_def using s(2) False g(1) bo
      by (auto simp: starts_inv_def less_Suc_eq)
    then show ?thesis using s(1) g(1) False by (simp add: starts_append)
  qed
qed

lemma nn_result:
  assumes "square m" "2 \<le> length m"
  shows "\<exists>order bt. nearest_neighbor_tsp m = Inr (Some order, bt) \<and>
           starts_inv m (length m) (length m) (Some order, bt)"
proof -
  obtain bo bt where s: "starts m (length m) [0..<length m] (None, PInf) = Inr (bo, bt)"
    "starts_inv m (length m) (length m) (bo, bt)"
    using starts_upt[OF assms(1) refl order_refl] by auto
  then obtain order where "bo = Some order"
    using assms(2) by (cases bo) (auto simp: starts_inv_def)
  then show ?thesis using s assms(2) by (simp add: nearest_neighbor_tsp_def)
qed

subsection \<open>The OR-Tools path\<close>

lemma permutation_of_iff: "permutation_of n xs = (distinct xs \<and> set xs = {..<n})"
proof
  assume p: "permutation_of n xs"
  then have sub: "set xs \<subseteq> {..<n}" and d: "distinct xs" and l: "length xs = n"
    by (auto simp: permutation_of_def)
  have "card (set xs) = card {..<n}" using d l by (simp add: distinct_card)
  then have "set xs = {..<n}" by (rule card_subset_eq[OF finite_lessThan sub])
  with d show "distinct xs \<and> set xs = {..<n}" by simp
next
  assume "distinct xs \<and> set xs = {..<n}"
  then have d: "distinct xs" and st: "set xs = {..<n}" by simp_all
  have "length xs = card (set xs)" using d by (simp add: distinct_card)
  also have "\<dots> = n" by (simp add: st)
  finally have "length xs = n" .
  with d st show "permutation_of n xs" by (simp add: permutation_of_def)
qed

lemma tour_cost_ok:
  assumes "\<forall>i\<in>set is. order ! i < length m \<and> order ! Suc i < length (m ! (order ! i))"
  shows "tour_cost m order is tot = Inr (tot + (\<Sum>k\<leftarrow>is. m ! (order ! k) ! (order ! (k + 1))))"
  using assms
proof (induction "is" arbitrary: tot)
  case Nil
  then show ?case by simp
next
  case (Cons i rest)
  then have e: "entry m (order ! i) (order ! (i + 1)) = Inr (m ! (order ! i) ! (order ! (i + 1)))"
    by (simp add: entry_def)
  have "\<forall>i\<in>set rest. order ! i < length m \<and> order ! Suc i < length (m ! (order ! i))"
    using Cons.prems by simp
  from Cons.IH[OF this, of "tot + m ! (order ! i) ! (order ! (i + 1))"] e
  show ?case by (simp add: add.assoc)
qed

lemma strip_dummy:
  assumes "permutation_of (Suc n) full_tour"
  shows "permutation_of n (filter (\<lambda>node. node \<noteq> n) full_tour)"
proof -
  from assms have d: "distinct full_tour" and st: "set full_tour = {..<Suc n}"
    by (simp_all add: permutation_of_iff)
  have "set (filter (\<lambda>node. node \<noteq> n) full_tour) = {i. i < Suc n \<and> i \<noteq> n}"
    by (simp add: st set_eq_iff)
  also have "\<dots> = {..<n}" by (auto simp: set_eq_iff less_Suc_eq)
  finally have "set (filter (\<lambda>node. node \<noteq> n) full_tour) = {..<n}" .
  then show ?thesis using d by (simp add: permutation_of_iff)
qed

lemma ortools_solution:
  assumes "square m" "3 \<le> length m" "engine_ok engine"
    "engine (map (\<lambda>i. m ! i @ [0]) [0..<length m] @ [replicate (length m + 1) 0]) (length m)
       = Some full_tour"
  shows "solve_tsp_ortools engine m =
           Inr (Some (filter (\<lambda>node. node \<noteq> length m) full_tour),
                recomputed m (filter (\<lambda>node. node \<noteq> length m) full_tour))
         \<and> permutation_of (length m) (filter (\<lambda>node. node \<noteq> length m) full_tour)"
proof -
  let ?n = "length m"
  let ?order = "filter (\<lambda>node. node \<noteq> ?n) full_tour"
  have "permutation_of (length (map (\<lambda>i. m ! i @ [0]) [0..<?n] @ [replicate (?n + 1) 0])) full_tour"
    using assms(3,4) unfolding engine_ok_def by blast
  then have "permutation_of (Suc ?n) full_tour" by simp
  then have perm: "permutation_of ?n ?order" by (rule strip_dummy)
  have rng: "\<forall>i\<in>set [0..<length ?order - 1].
      ?order ! i < length m \<and> ?order ! Suc i < length (m ! (?order ! i))"
  proof
    fix i assume "i \<in> set [0..<length ?order - 1]"
    then have i: "i < length ?order" "Suc i < length ?order" by auto
    then have "?order ! i \<in> set ?order" "?order ! Suc i \<in> set ?order"
      using nth_mem by blast+
    then have a: "?order ! i < ?n" "?order ! Suc i < ?n"
      using perm by (auto simp: permutation_of_def)
    then have "length (m ! (?order ! i)) = ?n"
      using assms(1) by (simp add: square_def)
    with a show "?order ! i < length m \<and> ?order ! Suc i < length (m ! (?order ! i))" by simp
  qed
  have "tour_cost m ?order [0..<length ?order - 1] 0 = Inr (recomputed m ?order)"
    using tour_cost_ok[OF rng, of 0] by (simp add: recomputed_def)
  then show ?thesis
    using assms(2,4) perm by (simp add: solve_tsp_ortools_def Let_def)
qed

subsection \<open>What the two solvers return\<close>

lemma route_total_recomputed:
  "length order = length m \<Longrightarrow> route_total m order = recomputed m order"
  by (simp add: route_total_def recomputed_def)

lemma nn_small:
  assumes "length m \<le> 1"
  shows "nearest_neighbor_tsp m = Inr (Some [0..<length m], 0)"
    and "permutation_of (length m) [0..<length m]"
    and "route_total m [0..<length m] = 0"
  using assms by (auto simp: nearest_neighbor_tsp_def permutation_of_def route_total_def)

lemma nn_solves:
  assumes "square m" "finite_entries m"
  shows "\<exists>order tot. nearest_neighbor_tsp m = Inr (Some order, tot) \<and>
           permutation_of (length m) order \<and> tot = route_total m order \<and> tot \<noteq> PInf"
proof (cases "length m \<le> 1")
  case True
  from nn_small[OF this] show ?thesis by (simp add: zero_num_def)
next
  case False
  then have n: "2 \<le> length m" by simp
  let ?n = "length m"
  from nn_result[OF assms(1) n] obtain order bt where
    r: "nearest_neighbor_tsp m = Inr (Some order, bt)"
    and si: "starts_inv m ?n ?n (Some order, bt)" by blast
  from si obtain v where hd: "hd order < ?n"
    and g: "greedy_from m ?n (hd order) = Inr (order, v, bt)"
    by (auto simp: starts_inv_def)
  from greedy_from_full[OF assms(1) refl assms(2) hd] g
  have inv: "nn_inv m ?n (hd order) (order, v, bt)" and len: "length order = ?n"
    by auto
  have "permutation_of ?n order" using inv len by (rule inv_perm)
  moreover have "bt = route_total m order" "bt \<noteq> PInf"
    using inv len by (auto simp: nn_inv_def route_total_recomputed)
  ultimately show ?thesis using r by simp
qed

lemma ortools_solves:
  assumes "square m" "finite_entries m" "engine_ok engine"
  shows "\<exists>order tot. solve_tsp_ortools engine m = Inr (Some order, tot) \<and>
           permutation_of (length m) order \<and> tot = route_total m order"
proof -
  consider "length m \<le> 1" | "length m = 2" | "3 \<le> length m" by linarith
  then show ?thesis
  proof cases
    case 1
    then have "solve_tsp_ortools engine m = Inr (Some [0..<length m], 0)"
      by (simp add: solve_tsp_ortools_def)
    with nn_small(2,3)[OF 1] show ?thesis by simp
  next
    case 2
    then have "m ! 0 \<in> set m" by simp
    then have "length (m ! 0) = 2" using assms(1) 2 by (simp add: square_def)
    then have "entry m 0 1 = Inr (m ! 0 ! 1)" using 2 by (simp add: entry_def)
    then have "solve_tsp_ortools engine m = Inr (Some [0, 1], m ! 0 ! 1)"
      using 2 by (simp add: solve_tsp_ortools_def)
    moreover have "permutation_of 2 [0, 1]" by (simp add: permutation_of_def)
    moreover have "route_total m [0, 1] = m ! 0 ! 1" using 2 by (simp add: route_total_def)
    ultimately show ?thesis using 2 by simp
  next
    case 3
    let ?aug = "map (\<lambda>i. m ! i @ [0]) [0..<length m] @ [replicate (length m + 1) 0]"
    show ?thesis
    proof (cases "engine ?aug (length m)")
      case None
      then have "solve_tsp_ortools engine m = nearest_neighbor_tsp m"
        using 3 by (simp add: solve_tsp_ortools_def Let_def)
      with nn_solves[OF assms(1,2)] show ?thesis by auto
    next
      case (Some full_tour)
      let ?order = "filter (\<lambda>node. node \<noteq> length m) full_tour"
      from ortools_solution[OF assms(1) 3 assms(3) Some]
      have r: "solve_tsp_ortools engine m = Inr (Some ?order, recomputed m ?order)"
        and p: "permutation_of (length m) ?order" by simp_all
      from p have "length ?order = length m" by (simp add: permutation_of_def)
      then have "recomputed m ?order = route_total m ?order"
        by (simp add: route_total_recomputed)
      with r p show ?thesis by simp
    qed
  qed
qed

subsection \<open>The greedy rule determines the path\<close>




subsection \<open>The scenario matrix and the reversing engine\<close>

lemma scenario4_valid: "square scenario4" "finite_entries scenario4" "length scenario4 = 4"
  by (simp_all add: square_def finite_entries_def scenario4_def)

lemma reversing_engine_ok: "engine_ok reversing_engine"
  by (simp add: engine_ok_def reversing_engine_def permutation_of_def)

lemma scan_finds:
  assumes "square m" "length m = n" "finite_entries m" "nn_inv m n start (order, v, tot)"
    "length order < n"
  shows "\<exists>b d. scan m v (last order) [0..<n] (None, PInf) = Inr (Some b, d)"
proof -
  from assms(4) have inv: "order \<noteq> []" "distinct order" "set order = {j. j < n \<and> v ! j}"
    by (auto simp: nn_inv_def)
  let ?c = "last order"
  have "?c \<in> set order" using inv(1) by simp
  then have c: "?c < n" using inv(3) by auto
  have row: "length (m ! ?c) = n"
    using assms(1,2) c by (simp add: square_def)
  obtain bn bd where sc: "scan m v ?c [0..<n] (None, PInf) = Inr (bn, bd)"
    "scan_inv m v ?c n (bn, bd)"
    using scan_upt[of ?c m n v] c assms(2) row by auto
  obtain j where j: "j < n" "\<not> v ! j"
    using unvisited_exists[OF inv(2,3) assms(5)] by auto
  have "m ! ?c ! j \<noteq> PInf"
    using entry_finite[OF assms(3,1)] c j(1) assms(2) by simp
  then obtain b where "bn = Some b"
    using sc(2) j by (cases bn) (auto simp: scan_inv_def)
  with sc(1) show ?thesis by simp
qed

section \<open>Order and total of a route\<close>

text \<open>
  Matrices of integers. For every square matrix with finite entries of the first model,
  the order returned by \<open>nearest_neighbor_tsp\<close>, and the order returned by
  \<open>solve_tsp_ortools\<close> (the tour of the engine with the dummy node stripped, or the
  fallback's order), is a permutation of \<open>0..n-1\<close>: it has length \<open>n\<close>, no duplicates,
  and every element is below \<open>n\<close>. Non-negativity of the entries is not needed. The
  engine is assumed to answer with a tour that visits every node of the augmented matrix
  once.
\<close>

theorem ordered_indices_permutation:
  assumes "square m" "finite_entries m" "engine_ok engine"
  shows "(\<exists>order tot. nearest_neighbor_tsp m = Inr (Some order, tot) \<and>
            length order = length m \<and> distinct order \<and> (\<forall>i\<in>set order. i < length m)) \<and>
         (\<exists>order tot. solve_tsp_ortools engine m = Inr (Some order, tot) \<and>
            length order = length m \<and> distinct order \<and> (\<forall>i\<in>set order. i < length m))"
proof
  from nn_solves[OF assms(1,2)]
  show "\<exists>order tot. nearest_neighbor_tsp m = Inr (Some order, tot) \<and>
            length order = length m \<and> distinct order \<and> (\<forall>i\<in>set order. i < length m)"
    unfolding permutation_of_def by blast
next
  from ortools_solves[OF assms]
  show "\<exists>order tot. solve_tsp_ortools engine m = Inr (Some order, tot) \<and>
            length order = length m \<and> distinct order \<and> (\<forall>i\<in>set order. i < length m)"
    unfolding permutation_of_def by blast
qed

theorem ordered_indices_permutation_witness:
  "square scenario4 \<and> finite_entries scenario4 \<and> engine_ok reversing_engine \<and>
   (\<exists>order tot. nearest_neighbor_tsp scenario4 = Inr (Some order, tot) \<and>
      length order = 4 \<and> distinct order \<and> list_all (\<lambda>i. i < 4) order) \<and>
   (\<exists>order tot. solve_tsp_ortools reversing_engine scenario4 = Inr (Some order, tot) \<and>
      length order = 4 \<and> distinct order \<and> list_all (\<lambda>i. i < 4) order)"
  using ordered_indices_permutation[OF scenario4_valid(1,2) reversing_engine_ok]
    scenario4_valid reversing_engine_ok
  by (simp add: list_all_iff)

text \<open>
  Matrices of integers. For every square matrix with finite entries of the first model,
  the total returned by either solver is the sum of \<open>distanceMatrix[order[k]][order[k+1]]\<close>
  for \<open>k = 0..n-2\<close> over the original matrix along the returned order, and it is \<open>0\<close>
  when \<open>n \<le> 1\<close>.
\<close>

theorem total_distance_recomputed:
  assumes "square m" "finite_entries m" "engine_ok engine"
  shows "(\<exists>order tot. nearest_neighbor_tsp m = Inr (Some order, tot) \<and>
            tot = route_total m order \<and> (length m \<le> 1 \<longrightarrow> tot = 0)) \<and>
         (\<exists>order tot. solve_tsp_ortools engine m = Inr (Some order, tot) \<and>
            tot = route_total m order \<and> (length m \<le> 1 \<longrightarrow> tot = 0))"
proof
  from nn_solves[OF assms(1,2)] obtain order tot where
    r: "nearest_neighbor_tsp m = Inr (Some order, tot)" "tot = route_total m order"
    by blast
  have "tot = 0" if "length m \<le> 1"
    using nn_small(1)[OF that] r(1) by simp
  with r show "\<exists>order tot. nearest_neighbor_tsp m = Inr (Some order, tot) \<and>
            tot = route_total m order \<and> (length m \<le> 1 \<longrightarrow> tot = 0)"
    by blast
next
  from ortools_solves[OF assms] obtain order tot where
    r: "solve_tsp_ortools engine m = Inr (Some order, tot)" "tot = route_total m order"
    by blast
  have "tot = 0" if "length m \<le> 1"
    using that r(1) by (simp add: solve_tsp_ortools_def)
  with r show "\<exists>order tot. solve_tsp_ortools engine m = Inr (Some order, tot) \<and>
            tot = route_total m order \<and> (length m \<le> 1 \<longrightarrow> tot = 0)"
    by blast
qed

theorem total_distance_recomputed_witness:
  "square scenario4 \<and> finite_entries scenario4 \<and> engine_ok reversing_engine \<and>
   (\<exists>order tot. nearest_neighbor_tsp scenario4 = Inr (Some order, tot) \<and>
      tot = route_total scenario4 order) \<and>
   (\<exists>order tot. solve_tsp_ortools reversing_engine scenario4 = Inr (Some order, tot) \<and>
      tot = route_total scenario4 order)"
  using total_distance_recomputed[OF scenario4_valid(1,2) reversing_engine_ok]
    scenario4_valid reversing_engine_ok
  by simp

section \<open>The fallback always returns an order\<close>

text \<open>
  Matrices of integers. For every square matrix with finite entries of the first model
  and \<open>n \<ge> 1\<close>, \<open>nearest_neighbor_tsp\<close> returns an order that is not \<open>None\<close>, of full
  length and with a finite total. The first start completes a path over all \<open>n\<close> nodes
  with a finite total, so \<open>best_order\<close> is set; and after fewer than \<open>n - 1\<close> iterations of
  the middle loop, from any start, the scan finds a next node, so the \<^verbatim>\<open>break\<close> on
  \<open>best_next == -1\<close> is not taken.
\<close>

theorem nearest_neighbor_returns_order:
  assumes "square m" "finite_entries m" "1 \<le> length m"
  shows "(\<exists>order t. nearest_neighbor_tsp m = Inr (Some order, Fin t) \<and>
            length order = length m) \<and>
         (\<exists>order v t. greedy_from m (length m) 0 = Inr (order, v, Fin t) \<and>
            length order = length m) \<and>
         (\<forall>start<length m. \<forall>k<length m - 1. \<exists>order v t b d.
            extend_path m (length m) k
              ([start], (replicate (length m) False)[start := True], 0) = Inr (order, v, t) \<and>
            scan m v (last order) [0..<length m] (None, PInf) = Inr (Some b, d))"
proof (intro conjI allI impI)
  from nn_solves[OF assms(1,2)] obtain order tot where
    r: "nearest_neighbor_tsp m = Inr (Some order, tot)" "permutation_of (length m) order"
      "tot \<noteq> PInf"
    by blast
  then obtain t where "tot = Fin t" by (cases tot) auto
  with r show "\<exists>order t. nearest_neighbor_tsp m = Inr (Some order, Fin t) \<and>
      length order = length m"
    by (auto simp: permutation_of_def)
next
  have "0 < length m" using assms(3) by (cases m) simp_all
  from greedy_from_full[OF assms(1) refl assms(2) this]
  obtain order v tot where g: "greedy_from m (length m) 0 = Inr (order, v, tot)"
    "nn_inv m (length m) 0 (order, v, tot)" "length order = length m"
    by auto
  then obtain t where "tot = Fin t" by (cases tot) (auto simp: nn_inv_def)
  with g show "\<exists>order v t. greedy_from m (length m) 0 = Inr (order, v, Fin t) \<and>
      length order = length m"
    by auto
next
  fix start k
  assume s: "start < length m" and k: "k < length m - 1"
  let ?init = "([start], (replicate (length m) False)[start := True], 0::num)"
  have "length (fst ?init) + k \<le> length m" using k by simp
  from extend_length[OF assms(1) refl assms(2) init_inv[OF s] this]
  obtain order v t where e: "extend_path m (length m) k ?init = Inr (order, v, t)"
    "nn_inv m (length m) start (order, v, t)" "length order = Suc k"
    by auto
  have "length order < length m" using e(3) k by simp
  from scan_finds[OF assms(1) refl assms(2) e(2) this] e(1)
  show "\<exists>order v t b d. extend_path m (length m) k ?init = Inr (order, v, t) \<and>
      scan m v (last order) [0..<length m] (None, PInf) = Inr (Some b, d)"
    by auto
qed

theorem nearest_neighbor_returns_order_witness:
  "square scenario4 \<and> finite_entries scenario4 \<and> 1 \<le> length scenario4 \<and>
   (\<exists>order t. nearest_neighbor_tsp scenario4 = Inr (Some order, Fin t) \<and>
      length order = length scenario4) \<and>
   (\<exists>order v t. greedy_from scenario4 (length scenario4) 0 = Inr (order, v, Fin t) \<and>
      length order = length scenario4) \<and>
   (\<exists>order v t b d.
      extend_path scenario4 (length scenario4) 2
        ([1], (replicate (length scenario4) False)[1 := True], 0) = Inr (order, v, t) \<and>
      scan scenario4 v (last order) [0..<length scenario4] (None, PInf) = Inr (Some b, d))"
proof -
  have n: "1 \<le> length scenario4" "1 < length scenario4" "2 < length scenario4 - 1"
    by (simp_all add: scenario4_valid(3))
  from nearest_neighbor_returns_order[OF scenario4_valid(1,2) n(1)] n scenario4_valid(1,2)
  show ?thesis by blast
qed

section \<open>Ties and the best start\<close>







section \<open>The diagonal is never read\<close>

lemma entry_square:
  assumes "square m" "i < length m" "j < length m"
  shows "entry m i j = Inr (m ! i ! j)"
proof -
  have "m ! i \<in> set m" using assms(2) by simp
  then have "length (m ! i) = length m" using assms(1) by (simp add: square_def)
  then show ?thesis using assms(2,3) by (simp add: entry_def)
qed

lemma scan_off_diagonal:
  assumes "square m" "square m'" "length m = n" "length m' = n" "off_diagonal_equal m m'"
    "c < n" "v ! c" "\<forall>j\<in>set js. j < n"
  shows "scan m v c js s = scan m' v c js s"
  using assms(8)
proof (induction js arbitrary: s)
  case Nil
  then show ?case by simp
next
  case (Cons j js)
  obtain bn bd where s: "s = (bn, bd)" by (cases s)
  have j: "j < n" using Cons.prems by simp
  have "scan_step m v c j s = scan_step m' v c j s"
  proof (cases "v ! j")
    case True
    then show ?thesis using s by simp
  next
    case False
    then have "c \<noteq> j" using assms(7) by auto
    then have "m ! c ! j = m' ! c ! j"
      using assms(3,5,6) j by (simp add: off_diagonal_equal_def)
    moreover have "entry m c j = Inr (m ! c ! j)" "entry m' c j = Inr (m' ! c ! j)"
      using entry_square assms(1-4,6) j by simp_all
    ultimately show ?thesis using s by simp
  qed
  moreover have "scan m v c js t = scan m' v c js t" for t
    using Cons.IH Cons.prems by simp
  ultimately show ?case by (simp split: sum.splits)
qed

lemma extend_off_diagonal:
  assumes "square m" "square m'" "length m = n" "length m' = n" "off_diagonal_equal m m'"
    "nn_inv m n start s"
  shows "extend_path m n k s = extend_path m' n k s"
  using assms(6)
proof (induction k arbitrary: s)
  case 0
  then show ?case by simp
next
  case (Suc k)
  obtain order v tot where s: "s = (order, v, tot)" by (cases s)
  from Suc.prems s have inv: "order \<noteq> []" "set order = {j. j < n \<and> v ! j}"
    by (auto simp: nn_inv_def)
  let ?c = "last order"
  have "?c \<in> set order" using inv(1) by simp
  then have c: "?c < n" "v ! ?c" using inv(2) by auto
  have sc: "scan m v ?c [0..<n] (None, PInf) = scan m' v ?c [0..<n] (None, PInf)"
    using scan_off_diagonal[OF assms(1-5) c] by simp
  show ?case
  proof (cases "scan m v ?c [0..<n] (None, PInf)")
    case (Inl e)
    then show ?thesis using sc s by simp
  next
    case (Inr r)
    obtain bn bd where r: "r = (bn, bd)" by (cases r)
    show ?thesis
    proof (cases bn)
      case None
      then show ?thesis using Inr r sc s by simp
    next
      case (Some b)
      have "\<exists>s'. extend_path m n (Suc 0) s = Inr s' \<and> nn_inv m n start s'"
        using extend_inv[OF assms(1,3) Suc.prems] by blast
      then have "nn_inv m n start (order @ [b], v[b := True], tot + bd)"
        using s Inr r Some by simp
      from Suc.IH[OF this] show ?thesis using Inr r Some sc s by simp
    qed
  qed
qed

lemma starts_off_diagonal:
  assumes "square m" "square m'" "length m = n" "length m' = n" "off_diagonal_equal m m'"
    "\<forall>s\<in>set ss. s < n"
  shows "starts m n ss st = starts m' n ss st"
  using assms(6)
proof (induction ss arbitrary: st)
  case Nil
  then show ?case by simp
next
  case (Cons s ss)
  obtain bo bt where st: "st = (bo, bt)" by (cases st)
  have "s < n" using Cons.prems by simp
  then have "greedy_from m n s = greedy_from m' n s"
    unfolding greedy_from_def
    by (rule extend_off_diagonal[OF assms(1-5) init_inv])
  moreover have "starts m n ss t = starts m' n ss t" for t
    using Cons.IH Cons.prems by simp
  ultimately show ?case using st by (simp split: sum.splits)
qed

text \<open>
  C9. The fallback never reads the diagonal: for two square matrices of the same size
  that agree on all off-diagonal entries, whatever their diagonals hold,
  \<open>nearest_neighbor_tsp\<close> returns the same order and the same total.
\<close>

theorem diagonal_never_read:
  assumes "square m" "square m'" "length m = length m'" "off_diagonal_equal m m'"
  shows "nearest_neighbor_tsp m = nearest_neighbor_tsp m'"
proof -
  have "starts m (length m) [0..<length m] (None, PInf)
      = starts m' (length m) [0..<length m] (None, PInf)"
    using starts_off_diagonal[OF assms(1,2) refl assms(3)[symmetric] assms(4)] by simp
  then show ?thesis using assms(3) by (simp add: nearest_neighbor_tsp_def Let_def)
qed

theorem diagonal_never_read_witness:
  "square scenario4 \<and> square scenario4_diagonal \<and>
   length scenario4 = length scenario4_diagonal \<and>
   off_diagonal_equal scenario4 scenario4_diagonal \<and>
   scenario4 \<noteq> scenario4_diagonal \<and>
   nearest_neighbor_tsp scenario4 = nearest_neighbor_tsp scenario4_diagonal"
proof -
  have a: "square scenario4_diagonal" "length scenario4 = length scenario4_diagonal"
    "scenario4 \<noteq> scenario4_diagonal"
    by (simp_all add: square_def scenario4_def scenario4_diagonal_def)
  have b: "off_diagonal_equal scenario4 scenario4_diagonal"
    by (auto simp: off_diagonal_equal_def scenario4_def scenario4_diagonal_def
        less_Suc_eq numeral_eq_Suc)
  from diagonal_never_read[OF scenario4_valid(1) a(1,2) b] a b scenario4_valid(1)
  show ?thesis by blast
qed

section \<open>Clusters of two nodes\<close>

lemma two_by_two:
  assumes "square m" "finite_entries m" "length m = 2"
  shows "\<exists>a b c d. m = [[Fin a, Fin b], [Fin c, Fin d]]"
proof -
  from assms(3) obtain r0 r1 where m: "m = [r0, r1]"
    by (cases m; cases "tl m") auto
  with assms(1) have "length r0 = 2" "length r1 = 2" by (simp_all add: square_def)
  then obtain a b c d where r: "r0 = [a, b]" "r1 = [c, d]"
    by (cases r0; cases "tl r0"; cases r1; cases "tl r1") auto
  with m assms(2) have "a \<noteq> PInf" "b \<noteq> PInf" "c \<noteq> PInf" "d \<noteq> PInf"
    by (simp_all add: finite_entries_def)
  then show ?thesis using m r by (cases a; cases b; cases c; cases d) auto
qed

lemma nearest_neighbor_two_nodes: "nearest_neighbor_tsp [[Fin a, Fin b], [Fin c, Fin d]] =
         (if c < b then Inr (Some [1, 0], Fin c) else Inr (Some [0, 1], Fin b))"
  by (simp add: nearest_neighbor_tsp_def greedy_from_def entry_def zero_num_def
      eval_nat_numeral upt_rec)

text \<open>
  C5 as stated fails: without OR-Tools, \<open>main\<close> gives a two-node matrix to
  \<open>nearest_neighbor_tsp\<close>, which has no shortcut for \<open>n = 2\<close> and returns the cheaper of the
  two directions.
\<close>

theorem two_nodes_counterexample:
  "square asym2 \<and> length asym2 = 2 \<and>
   solve_fn False reversing_engine asym2 = Inr (Some [1, 0], Fin 3) \<and>
   solve_fn False reversing_engine asym2 \<noteq> Inr (Some [0, 1], asym2 ! 0 ! 1)"
  by (simp add: solve_fn_def asym2_def square_def nearest_neighbor_two_nodes)

text \<open>
  C5, amended. For every square matrix with finite entries and \<open>n = 2\<close>: with OR-Tools
  available the result is \<open>[0, 1]\<close> with distance \<open>matrix[0][1]\<close>, returned before the
  engine is consulted; without it the result is \<open>[0, 1]\<close> with \<open>matrix[0][1]\<close> unless
  \<open>matrix[1][0]\<close> is strictly smaller, and then it is \<open>[1, 0]\<close> with \<open>matrix[1][0]\<close>.
\<close>

theorem two_nodes_result:
  assumes "square m" "finite_entries m" "length m = 2"
  shows "solve_fn True engine m = Inr (Some [0, 1], m ! 0 ! 1) \<and>
         solve_fn False engine m =
           (if m ! 1 ! 0 < m ! 0 ! 1 then Inr (Some [1, 0], m ! 1 ! 0)
            else Inr (Some [0, 1], m ! 0 ! 1))"
proof -
  from two_by_two[OF assms] obtain a b c d where
    m: "m = [[Fin a, Fin b], [Fin c, Fin d]]" by blast
  have "solve_tsp_ortools engine m = Inr (Some [0, 1], m ! 0 ! 1)"
    using m by (simp add: solve_tsp_ortools_def entry_def)
  moreover have "nearest_neighbor_tsp m =
      (if m ! 1 ! 0 < m ! 0 ! 1 then Inr (Some [1, 0], m ! 1 ! 0)
       else Inr (Some [0, 1], m ! 0 ! 1))"
    unfolding m nearest_neighbor_two_nodes by simp
  ultimately show ?thesis by (simp add: solve_fn_def)
qed

theorem two_nodes_result_witness:
  "square asym2 \<and> finite_entries asym2 \<and> length asym2 = 2 \<and>
   solve_fn True reversing_engine asym2 = Inr (Some [0, 1], Fin 7) \<and>
   solve_fn False reversing_engine asym2 = Inr (Some [1, 0], Fin 3)"
proof -
  have a: "square asym2" "finite_entries asym2" "length asym2 = 2"
    by (simp_all add: square_def finite_entries_def asym2_def)
  from two_nodes_result[OF a, of reversing_engine] a show ?thesis
    by (simp add: asym2_def)
qed

section \<open>The response of the batch driver\<close>

lemma sample_run_ortools:
  "main True reversing_engine sample_request = Inr
     \<lparr>routes =
        [\<lparr>route_clusterId = 41, orderedIndices = Some [3, 2, 1, 0], totalDistance = Fin 75\<rparr>,
         \<lparr>route_clusterId = 17, orderedIndices = Some [0, 1], totalDistance = Fin 7\<rparr>],
      solver = ''ortools''\<rparr>"
  by code_simp

lemma sample_run_fallback:
  "main False reversing_engine sample_request = Inr
     \<lparr>routes =
        [\<lparr>route_clusterId = 41, orderedIndices = Some [2, 0, 1, 3], totalDistance = Fin 50\<rparr>,
         \<lparr>route_clusterId = 17, orderedIndices = Some [1, 0], totalDistance = Fin 3\<rparr>],
      solver = ''nearest_neighbor''\<rparr>"
  by code_simp

text \<open>
  C6 as stated fails: the labels that \<open>main\<close> writes are \<open>ortools\<close> and
  \<open>nearest_neighbor\<close>, not \<open>exact\<close> and \<open>heuristic\<close>.
\<close>

theorem solver_label_counterexample:
  "(\<exists>resp. main True reversing_engine sample_request = Inr resp \<and>
      solver resp = ''ortools'' \<and> solver resp \<noteq> ''exact'') \<and>
   (\<exists>resp. main False reversing_engine sample_request = Inr resp \<and>
      solver resp = ''nearest_neighbor'' \<and> solver resp \<noteq> ''heuristic'')"
  by (simp add: sample_run_ortools sample_run_fallback)

text \<open>
  C6, amended. Whenever \<open>main\<close> produces a response, its solver field is the string
  \<open>ortools\<close> when OR-Tools is available and the string \<open>nearest_neighbor\<close> when it is not.
\<close>

theorem solver_label:
  assumes "main has_ortools engine data = Inr resp"
  shows "solver resp = (if has_ortools then ''ortools'' else ''nearest_neighbor'')"
  using assms by (auto simp: main_def Let_def split: sum.splits)

theorem solver_label_witness:
  "(\<exists>resp. main True reversing_engine sample_request = Inr resp \<and> solver resp = ''ortools'') \<and>
   (\<exists>resp. main False reversing_engine sample_request = Inr resp \<and>
      solver resp = ''nearest_neighbor'')"
  using solver_label[OF sample_run_ortools] solver_label[OF sample_run_fallback]
  by (simp add: sample_run_ortools sample_run_fallback)







section \<open>Malformed input\<close>













section \<open>Floating-point entries\<close>

lemma float_1e308_literal: "round_double (10 ^ 308) 0 = float_1e308"
  by code_simp

lemma float_1e308_doubled: "double_add float_1e308 float_1e308 = PosInf"
  by code_simp

lemma py_less_lift: "py_less (lift a) (lift b) = (a < b)"
  by (cases a; cases b) simp_all

lemma entry_py_lift:
  "entry_py (map (map lift) m) i j =
     (case entry m i j of Inl e \<Rightarrow> Inl e | Inr d \<Rightarrow> Inr (lift d))"
  by (simp add: entry_py_def entry_def)

lemma scan_step_py_lift:
  "scan_step_py (map (map lift) m) v c j (bn, lift bd) =
     (case scan_step m v c j (bn, bd) of
        Inl e \<Rightarrow> Inl e
      | Inr (bn', bd') \<Rightarrow> Inr (bn', lift bd'))"
  by (simp add: entry_py_lift py_less_lift split: sum.splits)

lemma scan_py_lift:
  "scan_py (map (map lift) m) v c js (bn, lift bd) =
     (case scan m v c js (bn, bd) of
        Inl e \<Rightarrow> Inl e
      | Inr (bn', bd') \<Rightarrow> Inr (bn', lift bd'))"
proof (induction js arbitrary: bn bd)
  case Nil
  then show ?case by simp
next
  case (Cons j js)
  show ?case
  proof (cases "scan_step m v c j (bn, bd)")
    case (Inl e)
    then show ?thesis using scan_step_py_lift[of m v c j bn bd] by simp
  next
    case (Inr r)
    obtain bn' bd' where r: "r = (bn', bd')" by (cases r)
    with Inr have "scan_step_py (map (map lift) m) v c j (bn, lift bd) = Inr (bn', lift bd')"
      using scan_step_py_lift[of m v c j bn bd] by simp
    then show ?thesis using Inr r Cons.IH[of bn' bd'] by simp
  qed
qed

lemma scan_found_finite:
  assumes "scan m v c js (bn, bd) = Inr (Some b, d)" "bn \<noteq> None \<longrightarrow> bd \<noteq> PInf"
  shows "d \<noteq> PInf"
  using assms
proof (induction js arbitrary: bn bd)
  case Nil
  then show ?case by simp
next
  case (Cons j js)
  from Cons.prems(1) obtain bn' bd' where
    st: "scan_step m v c j (bn, bd) = Inr (bn', bd')"
    and rest: "scan m v c js (bn', bd') = Inr (Some b, d)"
    by (auto split: sum.splits)
  have "bn' \<noteq> None \<longrightarrow> bd' \<noteq> PInf"
    using st Cons.prems(2) by (auto split: if_splits sum.splits)
  from Cons.IH[OF rest this] show ?case .
qed

lemma extend_path_py_lift:
  "extend_path_py (map (map lift) m) n k (order, v, PyInt t) =
     (case extend_path m n k (order, v, Fin t) of
        Inl e \<Rightarrow> Inl e
      | Inr (order', v', t') \<Rightarrow> Inr (order', v', lift t'))"
proof (induction k arbitrary: order v t)
  case 0
  then show ?case by simp
next
  case (Suc k)
  let ?c = "last order"
  have sc: "scan_py (map (map lift) m) v ?c [0..<n] (None, PyFloat PosInf) =
        (case scan m v ?c [0..<n] (None, PInf) of
           Inl e \<Rightarrow> Inl e
         | Inr (bn', bd') \<Rightarrow> Inr (bn', lift bd'))"
    using scan_py_lift[of m v ?c "[0..<n]" None PInf] by simp
  show ?case
  proof (cases "scan m v ?c [0..<n] (None, PInf)")
    case (Inl e)
    then show ?thesis using sc by simp
  next
    case (Inr r)
    obtain bn bd where r: "r = (bn, bd)" by (cases r)
    show ?thesis
    proof (cases bn)
      case None
      then show ?thesis using sc Inr r by simp
    next
      case (Some b)
      have "bd \<noteq> PInf"
        using scan_found_finite[of m v ?c "[0..<n]" None PInf b bd] Inr r Some by simp
      then obtain x where x: "bd = Fin x" by (cases bd) auto
      then show ?thesis using sc Inr r Some Suc.IH[of "order @ [b]" "v[b := True]" "t + x"]
        by simp
    qed
  qed
qed

lemma greedy_from_py_lift:
  "greedy_from_py (map (map lift) m) n s =
     (case greedy_from m n s of
        Inl e \<Rightarrow> Inl e
      | Inr (order', v', t') \<Rightarrow> Inr (order', v', lift t'))"
  unfolding greedy_from_py_def greedy_from_def zero_num_def
  by (rule extend_path_py_lift)

lemma starts_py_lift:
  "starts_py (map (map lift) m) n ss (bo, lift bt) =
     (case starts m n ss (bo, bt) of
        Inl e \<Rightarrow> Inl e
      | Inr (bo', bt') \<Rightarrow> Inr (bo', lift bt'))"
proof (induction ss arbitrary: bo bt)
  case Nil
  then show ?case by simp
next
  case (Cons s ss)
  show ?case
  proof (cases "greedy_from m n s")
    case (Inl e)
    then show ?thesis using greedy_from_py_lift[of m n s] by simp
  next
    case (Inr r)
    obtain order v t where r: "r = (order, v, t)" by (cases r)
    with Inr have "greedy_from_py (map (map lift) m) n s = Inr (order, v, lift t)"
      using greedy_from_py_lift[of m n s] by simp
    then show ?thesis
      using Inr r Cons.IH[of "Some order" t] Cons.IH[of bo bt]
      by (simp add: py_less_lift)
  qed
qed

text \<open>
  On a matrix of the first model, that is, of integers and \<^verbatim>\<open>float("inf")\<close>, the two
  models of the fallback return the same.
\<close>

lemma nearest_neighbor_tsp_py_lift:
  "nearest_neighbor_tsp_py (map (map lift) m) =
     (case nearest_neighbor_tsp m of
        Inl e \<Rightarrow> Inl e
      | Inr (order, tot) \<Rightarrow> Inr (order, lift tot))"
  using starts_py_lift[of m "length m" "[0..<length m]" None PInf]
  by (simp add: nearest_neighbor_tsp_py_def nearest_neighbor_tsp_def Let_def zero_num_def)

text \<open>
  So the fallback, on Python's numbers, returns a permutation with an integer total for
  every square matrix of integers.
\<close>

lemma integer_matrix_fallback:
  assumes "\<forall>row\<in>set mi. length row = length mi"
  shows "\<exists>order t. nearest_neighbor_tsp_py (map (map PyInt) mi) = Inr (Some order, PyInt t) \<and>
           permutation_of (length mi) order \<and>
           Fin t = route_total (map (map Fin) mi) order"
proof -
  let ?m = "map (map Fin) mi"
  have sq: "square ?m" using assms by (simp add: square_def)
  have fin: "finite_entries ?m" by (auto simp: finite_entries_def)
  from nn_solves[OF sq fin] obtain order tot where
    r: "nearest_neighbor_tsp ?m = Inr (Some order, tot)" "permutation_of (length ?m) order"
      "tot = route_total ?m order" "tot \<noteq> PInf"
    by blast
  from r(4) obtain t where t: "tot = Fin t" by (cases tot) auto
  have l: "map (map lift) ?m = map (map PyInt) mi" by simp
  have "nearest_neighbor_tsp_py (map (map lift) ?m) = Inr (Some order, PyInt t)"
    using nearest_neighbor_tsp_py_lift[of ?m] r(1) t by simp
  then have "nearest_neighbor_tsp_py (map (map PyInt) mi) = Inr (Some order, PyInt t)"
    by (simp only: l)
  with r(2,3) t show ?thesis by auto
qed

section \<open>Totals that overflow\<close>

text \<open>
  C1. The claim fails on the code. On the square matrix \<open>overflow3\<close>, whose entries are
  finite and not negative, the fallback returns no order at all: \<open>orderedIndices\<close> is
  \<open>None\<close>, which is not a permutation of \<open>0..2\<close>.
\<close>

theorem overflow_returns_no_order:
  "length overflow3 = 3 \<and> map length overflow3 = [3, 3, 3] \<and>
   nearest_neighbor_tsp_py overflow3 = Inr (None, PyFloat PosInf)"
  by code_simp

text \<open>
  C2. The claim fails on the code. On \<open>overflow3\<close> the first edge of a path costs
  \<open>1e308\<close> and the second makes the sum overflow; the fallback returns that infinite
  total with no order along which a sum could be recomputed.
\<close>

theorem overflow_total_without_order:
  "py_add (PyInt 0) (PyFloat float_1e308) = Inr (PyFloat float_1e308) \<and>
   py_add (PyFloat float_1e308) (PyFloat float_1e308) = Inr (PyFloat PosInf) \<and>
   nearest_neighbor_tsp_py overflow3 = Inr (None, PyFloat PosInf)"
  by code_simp

text \<open>
  C10. The claim fails on the code. All entries of \<open>overflow3\<close> are finite, yet the first
  start completes its path with an infinite total; \<open>inf < inf\<close> is false, for this start
  and for the two others, so \<open>best_order\<close> is still \<open>None\<close> when the fallback returns.
\<close>

theorem overflow_first_start_infinite:
  "greedy_from_py overflow3 3 0 = Inr ([0, 1, 2], [True, True, True], PyFloat PosInf) \<and>
   greedy_from_py overflow3 3 1 = Inr ([1, 0, 2], [True, True, True], PyFloat PosInf) \<and>
   greedy_from_py overflow3 3 2 = Inr ([2, 0, 1], [True, True, True], PyFloat PosInf) \<and>
   \<not> py_less (PyFloat PosInf) (PyFloat PosInf) \<and>
   nearest_neighbor_tsp_py overflow3 = Inr (None, PyFloat PosInf)"
  by code_simp

text \<open>
  A float next to an integer that is too large for a double ends the fallback in another
  way: from start \<open>0\<close> the path goes to node \<open>1\<close> at distance \<open>1.5\<close>, and adding the integer
  \<open>2 ^ 1024\<close> to that float raises OverflowError.
\<close>

lemma mixed_entries_raise:
  "round_double 3 (- 1) = Finite (3 * 2 ^ 51) (- 52) \<and>
   nearest_neighbor_tsp_py mixed3 = Inl OverflowError"
  by code_simp

end
